theory Spec2Isabelle
  imports Main
begin

section \<open>The object store\<close>

text \<open>
  The builder of \<^verbatim>\<open>05-objects-tasks.js\<close> works on JavaScript objects that are linked by
  their prototypes and mutated in place, so the model keeps an explicit store. An object
  carries its prototype link and the two own properties the code ever writes,
  \<^verbatim>\<open>selector\<close> and \<^verbatim>\<open>usedSelectors\<close>; an absent own property is \<open>None\<close>. The value of
  \<^verbatim>\<open>usedSelectors\<close> is itself an object (six booleans), held by reference: it lives in
  a second list, and the property stores its index.
\<close>

type_synonym addr = nat

record flags =
  u_element :: bool
  u_id :: bool
  u_className :: bool
  u_attribute :: bool
  u_pseudoClass :: bool
  u_pseudoElement :: bool

record obj =
  proto :: "addr option"
  selector :: "string option"
  usedSelectors :: "addr option"

record heap =
  objs :: "obj list"
  flagobjs :: "flags list"

datatype jsval = Undefined | Str string

text \<open>
  The two \<^verbatim>\<open>throw new Error(...)\<close> of the source, told apart by their message
  (\<open>MoreThanOnce\<close>: "Element, id and pseudo-element should not occur more then one time
  inside the selector"; \<open>WrongOrder\<close>: "Selector parts should be arranged in the following
  order: ..."), and the \<open>TypeError\<close> the runtime raises on writing a property of
  \<^verbatim>\<open>undefined\<close>.
\<close>

datatype error = MoreThanOnce | WrongOrder | TypeError

text \<open>
  Property lookup \<^verbatim>\<open>this.p\<close>: the own property if present, else the prototype's.
  \<^verbatim>\<open>Object.setPrototypeOf\<close> is only ever applied to an object created just before, so
  a prototype is always an older object than the one that links to it; the lookup follows
  a link only to a smaller address, which is also why it terminates.
\<close>

function get_prop :: "(obj \<Rightarrow> 'a option) \<Rightarrow> heap \<Rightarrow> addr \<Rightarrow> 'a option" where
  "get_prop f h a =
     (if a < length (objs h) then
        (case f (objs h ! a) of
           Some x \<Rightarrow> Some x
         | None \<Rightarrow>
             (case proto (objs h ! a) of
                None \<Rightarrow> None
              | Some p \<Rightarrow> if p < a then get_prop f h p else None))
      else None)"
  by pat_completeness auto
termination
  by (relation "measure (\<lambda>(f, h, a). a)") auto

declare get_prop.simps [simp del]

definition get_selector :: "heap \<Rightarrow> addr \<Rightarrow> jsval" where
  "get_selector h this = (case get_prop selector h this of None \<Rightarrow> Undefined | Some s \<Rightarrow> Str s)"

text \<open>\<^verbatim>\<open>this.usedSelectors && this.usedSelectors.k\<close>\<close>

definition used :: "heap \<Rightarrow> addr \<Rightarrow> (flags \<Rightarrow> bool) \<Rightarrow> bool" where
  "used h this k =
     (case get_prop usedSelectors h this of None \<Rightarrow> False | Some u \<Rightarrow> k (flagobjs h ! u))"

fun truthy :: "jsval \<Rightarrow> bool" where
  "truthy Undefined = False"
| "truthy (Str s) = (s \<noteq> [])"

text \<open>String conversion, as string concatenation and template literals apply it.\<close>

fun to_string :: "jsval \<Rightarrow> string" where
  "to_string Undefined = ''undefined''"
| "to_string (Str s) = s"

text \<open>\<^verbatim>\<open>this.selector += s\<close>: reads through the prototype chain, writes an own property.\<close>

definition append_selector :: "heap \<Rightarrow> addr \<Rightarrow> string \<Rightarrow> heap" where
  "append_selector h this s =
     h\<lparr>objs := (objs h)[this := (objs h ! this)\<lparr>selector := Some (to_string (get_selector h this) @ s)\<rparr>]\<rparr>"

text \<open>
  \<^verbatim>\<open>this.usedSelectors.k = true; return this;\<close> The flags object is the one the lookup
  finds, which may belong to a prototype; where there is none the assignment raises.
\<close>

definition set_used :: "heap \<Rightarrow> addr \<Rightarrow> (flags \<Rightarrow> flags) \<Rightarrow> heap \<times> (error + addr)" where
  "set_used h this upd =
     (case get_prop usedSelectors h this of
        None \<Rightarrow> (h, Inl TypeError)
      | Some u \<Rightarrow> (h\<lparr>flagobjs := (flagobjs h)[u := upd (flagobjs h ! u)]\<rparr>, Inr this))"

text \<open>
  \<^verbatim>\<open>const instance = {}; Object.setPrototypeOf(instance, this); instance.selector = s;
  instance.usedSelectors = {...}; return instance;\<close>
\<close>

definition new_instance :: "heap \<Rightarrow> addr \<Rightarrow> string \<Rightarrow> flags \<Rightarrow> heap \<times> (error + addr)" where
  "new_instance h this s fl =
     (h\<lparr>objs := objs h @ [\<lparr>proto = Some this, selector = Some s,
                           usedSelectors = Some (length (flagobjs h))\<rparr>],
        flagobjs := flagobjs h @ [fl]\<rparr>,
      Inr (length (objs h)))"

section \<open>cssSelectorBuilder\<close>

definition element :: "heap \<Rightarrow> addr \<Rightarrow> string \<Rightarrow> heap \<times> (error + addr)" where
  "element h this v =
     (if used h this u_element then (h, Inl MoreThanOnce)
      else if used h this u_id \<or> used h this u_className \<or> used h this u_attribute
              \<or> used h this u_pseudoClass \<or> used h this u_pseudoElement
      then (h, Inl WrongOrder)
      else if truthy (get_selector h this)
      then set_used (append_selector h this v) this (\<lambda>f. f\<lparr>u_element := True\<rparr>)
      else new_instance h this v
             \<lparr>u_element = True, u_id = False, u_className = False, u_attribute = False,
              u_pseudoClass = False, u_pseudoElement = False\<rparr>)"

definition id_part :: "heap \<Rightarrow> addr \<Rightarrow> string \<Rightarrow> heap \<times> (error + addr)" where
  "id_part h this v =
     (if used h this u_id then (h, Inl MoreThanOnce)
      else if used h this u_className \<or> used h this u_attribute
              \<or> used h this u_pseudoClass \<or> used h this u_pseudoElement
      then (h, Inl WrongOrder)
      else if truthy (get_selector h this)
      then set_used (append_selector h this (''#'' @ v)) this (\<lambda>f. f\<lparr>u_id := True\<rparr>)
      else new_instance h this (''#'' @ v)
             \<lparr>u_element = False, u_id = True, u_className = False, u_attribute = False,
              u_pseudoClass = False, u_pseudoElement = False\<rparr>)"

definition class_part :: "heap \<Rightarrow> addr \<Rightarrow> string \<Rightarrow> heap \<times> (error + addr)" where
  "class_part h this v =
     (if used h this u_attribute \<or> used h this u_pseudoClass \<or> used h this u_pseudoElement
      then (h, Inl WrongOrder)
      else if truthy (get_selector h this)
      then set_used (append_selector h this (''.'' @ v)) this (\<lambda>f. f\<lparr>u_className := True\<rparr>)
      else new_instance h this (''.'' @ v)
             \<lparr>u_element = False, u_id = False, u_className = True, u_attribute = False,
              u_pseudoClass = False, u_pseudoElement = False\<rparr>)"

definition attr :: "heap \<Rightarrow> addr \<Rightarrow> string \<Rightarrow> heap \<times> (error + addr)" where
  "attr h this v =
     (if used h this u_pseudoClass \<or> used h this u_pseudoElement
      then (h, Inl WrongOrder)
      else if truthy (get_selector h this)
      then set_used (append_selector h this (''['' @ v @ '']'')) this (\<lambda>f. f\<lparr>u_attribute := True\<rparr>)
      else new_instance h this (''['' @ v @ '']'')
             \<lparr>u_element = False, u_id = False, u_className = False, u_attribute = True,
              u_pseudoClass = False, u_pseudoElement = False\<rparr>)"

definition pseudoClass :: "heap \<Rightarrow> addr \<Rightarrow> string \<Rightarrow> heap \<times> (error + addr)" where
  "pseudoClass h this v =
     (if used h this u_pseudoElement
      then (h, Inl WrongOrder)
      else if truthy (get_selector h this)
      then set_used (append_selector h this ('':'' @ v)) this (\<lambda>f. f\<lparr>u_pseudoClass := True\<rparr>)
      else new_instance h this ('':'' @ v)
             \<lparr>u_element = False, u_id = False, u_className = False, u_attribute = False,
              u_pseudoClass = True, u_pseudoElement = False\<rparr>)"

definition pseudoElement :: "heap \<Rightarrow> addr \<Rightarrow> string \<Rightarrow> heap \<times> (error + addr)" where
  "pseudoElement h this v =
     (if used h this u_pseudoElement then (h, Inl MoreThanOnce)
      else if truthy (get_selector h this)
      then set_used (append_selector h this (''::'' @ v)) this (\<lambda>f. f\<lparr>u_pseudoElement := True\<rparr>)
      else new_instance h this (''::'' @ v)
             \<lparr>u_element = False, u_id = False, u_className = False, u_attribute = False,
              u_pseudoClass = False, u_pseudoElement = True\<rparr>)"

definition stringify :: "heap \<Rightarrow> addr \<Rightarrow> jsval" where
  "stringify h this = get_selector h this"

text \<open>
  \<^verbatim>\<open>combine\<close> is a method like the others: the new object's prototype is the receiver,
  whatever it is. Both operands are rendered at once, inside the template literal, and the
  new object gets no \<^verbatim>\<open>usedSelectors\<close> of its own.
\<close>

definition combine :: "heap \<Rightarrow> addr \<Rightarrow> addr \<Rightarrow> string \<Rightarrow> addr \<Rightarrow> heap \<times> addr" where
  "combine h this selector1 combinator selector2 =
     (h\<lparr>objs := objs h @ [\<lparr>proto = Some this,
                           selector = Some (to_string (stringify h selector1) @ '' '' @ combinator
                                            @ '' '' @ to_string (stringify h selector2)),
                           usedSelectors = None\<rparr>]\<rparr>,
      length (objs h))"

text \<open>
  The store when the module has been loaded: the object literal \<^verbatim>\<open>cssSelectorBuilder\<close>
  alone, which has neither property. Its own prototype is \<^verbatim>\<open>Object.prototype\<close>, which
  has neither property either and is left out: that is the link \<open>None\<close>.
\<close>

definition cssSelectorBuilder :: addr where
  "cssSelectorBuilder = 0"

definition init_heap :: heap where
  "init_heap = \<lparr>objs = [\<lparr>proto = None, selector = None, usedSelectors = None\<rparr>], flagobjs = []\<rparr>"

section \<open>Chained calls\<close>

datatype kind = Element | Id | Class | Attribute | PseudoClass | PseudoElement

type_synonym part = "kind \<times> string"

text \<open>The method call \<^verbatim>\<open>this.k(v)\<close>.\<close>

fun apply_part :: "heap \<Rightarrow> addr \<Rightarrow> part \<Rightarrow> heap \<times> (error + addr)" where
  "apply_part h this (Element, v) = element h this v"
| "apply_part h this (Id, v) = id_part h this v"
| "apply_part h this (Class, v) = class_part h this v"
| "apply_part h this (Attribute, v) = attr h this v"
| "apply_part h this (PseudoClass, v) = pseudoClass h this v"
| "apply_part h this (PseudoElement, v) = pseudoElement h this v"

text \<open>
  The expression \<^verbatim>\<open>this.k1(v1).k2(v2)...\<close>: each call is made on the object the previous
  one returned, and the first exception ends the evaluation.
\<close>

fun run_chain :: "heap \<Rightarrow> addr \<Rightarrow> part list \<Rightarrow> heap \<times> (error + addr)" where
  "run_chain h this [] = (h, Inr this)"
| "run_chain h this (p # ps) =
     (case apply_part h this p of
        (h', Inl e) \<Rightarrow> (h', Inl e)
      | (h', Inr a) \<Rightarrow> run_chain h' a ps)"

section \<open>The vocabulary of the specification\<close>

text \<open>
  The order of the kinds, the text each part contributes, and the property of
  \<^verbatim>\<open>usedSelectors\<close> that records a kind.
\<close>

fun kind_order :: "kind \<Rightarrow> nat" where
  "kind_order Element = 0"
| "kind_order Id = 1"
| "kind_order Class = 2"
| "kind_order Attribute = 3"
| "kind_order PseudoClass = 4"
| "kind_order PseudoElement = 5"

fun fragment :: "part \<Rightarrow> string" where
  "fragment (Element, v) = v"
| "fragment (Id, v) = ''#'' @ v"
| "fragment (Class, v) = ''.'' @ v"
| "fragment (Attribute, v) = ''['' @ v @ '']''"
| "fragment (PseudoClass, v) = '':'' @ v"
| "fragment (PseudoElement, v) = ''::'' @ v"

fun flag_of :: "kind \<Rightarrow> flags \<Rightarrow> bool" where
  "flag_of Element = u_element"
| "flag_of Id = u_id"
| "flag_of Class = u_className"
| "flag_of Attribute = u_attribute"
| "flag_of PseudoClass = u_pseudoClass"
| "flag_of PseudoElement = u_pseudoElement"

text \<open>
  The kinds whose method starts with the \<open>MoreThanOnce\<close> guard.
\<close>

fun once_only :: "kind \<Rightarrow> bool" where
  "once_only Element = True"
| "once_only Id = True"
| "once_only PseudoElement = True"
| "once_only k = False"

text \<open>A builder without state: neither property is found on it or on its prototypes.\<close>

definition stateless :: "heap \<Rightarrow> addr \<Rightarrow> bool" where
  "stateless h r = (get_prop selector h r = None \<and> get_prop usedSelectors h r = None)"

text \<open>
  A list of parts in non-decreasing order of kind, with each of the kinds that the code
  admits once only occurring at most once.
\<close>

definition in_order :: "part list \<Rightarrow> bool" where
  "in_order ps =
     (sorted (map (\<lambda>p. kind_order (fst p)) ps)
      \<and> count_list (map fst ps) Element \<le> 1
      \<and> count_list (map fst ps) Id \<le> 1
      \<and> count_list (map fst ps) PseudoElement \<le> 1)"

text \<open>
  What a client can do to the store: call a part method or \<^verbatim>\<open>combine\<close> on some
  object. \<open>exec\<close> runs such calls one after the other and keeps the store, whether a
  call returned or raised.
\<close>

datatype call = Part addr part | Combine addr addr string addr

fun step :: "heap \<Rightarrow> call \<Rightarrow> heap" where
  "step h (Part this p) = fst (apply_part h this p)"
| "step h (Combine this selector1 combinator selector2) =
     fst (combine h this selector1 combinator selector2)"

fun exec :: "heap \<Rightarrow> call list \<Rightarrow> heap" where
  "exec h [] = h"
| "exec h (c # cs) = exec (step h c) cs"

text \<open>
  The object literal \<^verbatim>\<open>cssSelectorBuilder\<close> is still what it was when the module was
  loaded.
\<close>

definition root_intact :: "heap \<Rightarrow> bool" where
  "root_intact h =
     (objs h \<noteq> [] \<and> objs h ! 0 = \<lparr>proto = None, selector = None, usedSelectors = None\<rparr>)"

text \<open>
  The store after \<^verbatim>\<open>element('div').id('main')\<close> and \<^verbatim>\<open>element('table').id('data')\<close>,
  both started on \<^verbatim>\<open>cssSelectorBuilder\<close>: the two selectors are the objects 1 and 2.
\<close>

definition two_selectors :: heap where
  "two_selectors =
     fst (run_chain
            (fst (run_chain init_heap cssSelectorBuilder [(Element, ''div''), (Id, ''main'')]))
            cssSelectorBuilder [(Element, ''table''), (Id, ''data'')])"

text \<open>The text a selector property stands for, \<^verbatim>\<open>undefined\<close> standing for none.\<close>

fun rendered :: "jsval \<Rightarrow> string" where
  "rendered Undefined = []"
| "rendered (Str s) = s"

text \<open>
  Kind \<open>k'\<close> may come after kind \<open>k\<close> in a selector: it is of higher order, or the same
  kind where the kind may repeat.
\<close>

definition may_follow :: "kind \<Rightarrow> kind \<Rightarrow> bool" where
  "may_follow k k' = (kind_order k < kind_order k' \<or> (k = k' \<and> \<not> once_only k))"

text \<open>
  Every prototype link points to an older object; and the calls of a list are each made
  on an object that exists when the call is made.
\<close>

definition links_down :: "heap \<Rightarrow> bool" where
  "links_down h = (\<forall>a < length (objs h). \<forall>p. proto (objs h ! a) = Some p \<longrightarrow> p < a)"

fun receiver :: "call \<Rightarrow> addr" where
  "receiver (Part this p) = this"
| "receiver (Combine this selector1 combinator selector2) = this"

fun receivers_exist :: "heap \<Rightarrow> call list \<Rightarrow> bool" where
  "receivers_exist h [] = True"
| "receivers_exist h (c # cs) = (receiver c < length (objs h) \<and> receivers_exist (step h c) cs)"

text \<open>
  The store after the calls of the third example in the source's comment, in the order
  JavaScript makes them (arguments before the call, left to right): the objects 1 to 4 are
  the four selectors, 5 to 7 the composites from the innermost to the outermost.
\<close>

definition doc_example_heap :: heap where
  "doc_example_heap =
     exec init_heap
       [Part 0 (Element, ''div''), Part 1 (Id, ''main''), Part 1 (Class, ''container''),
        Part 1 (Class, ''draggable''),
        Part 0 (Element, ''table''), Part 2 (Id, ''data''),
        Part 0 (Element, ''tr''), Part 3 (PseudoClass, ''nth-of-type(even)''),
        Part 0 (Element, ''td''), Part 4 (PseudoClass, ''nth-of-type(even)''),
        Combine 0 3 '' '' 4, Combine 0 2 ''~'' 5, Combine 0 1 ''+'' 6]"

text \<open>
  The kinds of the parts of a list; and the lists that begin with \<^verbatim>\<open>element('')\<close> and
  go on with another part.
\<close>

definition kinds :: "part list \<Rightarrow> kind set" where
  "kinds ps = fst ` set ps"

fun empty_start :: "part list \<Rightarrow> bool" where
  "empty_start ((Element, []) # q # qs) = True"
| "empty_start ps = False"

section \<open>Lookup and the store\<close>

lemma get_prop_own:
  "a < length (objs h) \<Longrightarrow> f (objs h ! a) = Some x \<Longrightarrow> get_prop f h a = Some x"
  by (subst get_prop.simps) simp

lemma get_prop_valid: "get_prop f h a = Some x \<Longrightarrow> a < length (objs h)"
  by (subst (asm) get_prop.simps) (simp split: if_splits)

lemma get_prop_invalid: "\<not> a < length (objs h) \<Longrightarrow> get_prop f h a = None"
  by (subst get_prop.simps) simp

text \<open>
  A lookup reads the property and the links of the objects it passes, nothing else.
\<close>

lemma get_prop_cong_objs:
  assumes "length (objs h') = length (objs h)"
    and "\<And>b. b \<le> a \<Longrightarrow> b < length (objs h) \<Longrightarrow>
            f (objs h' ! b) = f (objs h ! b) \<and> proto (objs h' ! b) = proto (objs h ! b)"
  shows "get_prop f h' a = get_prop f h a"
  using assms
proof (induction f h a rule: get_prop.induct)
  case (1 f h a)
  show ?case
  proof (cases "a < length (objs h)")
    case False
    with 1(2) show ?thesis by (simp add: get_prop_invalid)
  next
    case True
    from 1(3)[of a] True
    have same: "f (objs h' ! a) = f (objs h ! a)" "proto (objs h' ! a) = proto (objs h ! a)"
      by simp_all
    show ?thesis
    proof (cases "f (objs h ! a)")
      case (Some x)
      with True same 1(2) show ?thesis by (simp add: get_prop_own)
    next
      case None
      show ?thesis
      proof (cases "proto (objs h ! a)")
        case pn: None
        with None True same 1(2) show ?thesis
          by (subst get_prop.simps, subst (2) get_prop.simps) simp
      next
        case (Some p)
        show ?thesis
        proof (cases "p < a")
          case False
          with None Some True same 1(2) show ?thesis
            by (subst get_prop.simps, subst (2) get_prop.simps) simp
        next
          case pa: True
          have "get_prop f h' p = get_prop f h p"
            using 1(1)[OF True None Some pa 1(2)] 1(3) pa by simp
          with None Some True same 1(2) pa show ?thesis
            by (subst get_prop.simps, subst (2) get_prop.simps) simp
        qed
      qed
    qed
  qed
qed


lemma get_prop_flagobjs [simp]:
  "get_prop f (h\<lparr>flagobjs := fs\<rparr>) a = get_prop f h a"
  by (rule get_prop_cong_objs) simp_all

lemma get_prop_append_selector [simp]:
  "get_prop usedSelectors (append_selector h this s) a = get_prop usedSelectors h a"
proof (rule get_prop_cong_objs)
  show "length (objs (append_selector h this s)) = length (objs h)"
    by (simp add: append_selector_def)
next
  fix b
  assume "b < length (objs h)"
  then show "usedSelectors (objs (append_selector h this s) ! b) = usedSelectors (objs h ! b) \<and>
        proto (objs (append_selector h this s) ! b) = proto (objs h ! b)"
    by (cases "b = this") (simp_all add: append_selector_def)
qed

lemma flagobjs_append_selector [simp]: "flagobjs (append_selector h this s) = flagobjs h"
  by (simp add: append_selector_def)

lemma used_append_selector [simp]: "used (append_selector h this s) a k = used h a k"
  by (simp add: used_def split: option.splits)

lemma get_selector_append_selector:
  assumes "get_selector h this = Str s"
  shows "get_selector (append_selector h this t) this = Str (s @ t)"
proof -
  from assms have "this < length (objs h)"
    by (auto simp: get_selector_def split: option.splits dest: get_prop_valid)
  with assms show ?thesis
    by (simp add: get_selector_def append_selector_def get_prop_own)
qed

lemmas part_defs = element_def id_part_def class_part_def attr_def pseudoClass_def
  pseudoElement_def

lemmas eval_defs = part_defs init_heap_def cssSelectorBuilder_def used_def get_selector_def
  get_prop.simps new_instance_def set_used_def append_selector_def stringify_def combine_def

lemma set_used_not_thrown:
  "snd (set_used h this upd) \<noteq> Inl MoreThanOnce \<and> snd (set_used h this upd) \<noteq> Inl WrongOrder"
  by (simp add: set_used_def split: option.splits)

lemma new_instance_returns: "snd (new_instance h this s fl) = Inr (length (objs h))"
  by (simp add: new_instance_def)

lemma get_prop_prefix:
  assumes "a < n" and "take n (objs h') = take n (objs h)"
  shows "get_prop f h' a = get_prop f h a"
  using assms
proof (induction f h a rule: get_prop.induct)
  case (1 f h a)
  have len: "\<And>b. b < n \<Longrightarrow> (b < length (objs h')) = (b < length (objs h))"
  proof -
    fix b assume "b < n"
    have "length (take n (objs h')) = length (take n (objs h))" using 1(3) by simp
    with \<open>b < n\<close> show "(b < length (objs h')) = (b < length (objs h))" by auto
  qed
  have nth: "\<And>b. b < n \<Longrightarrow> b < length (objs h) \<Longrightarrow> objs h' ! b = objs h ! b"
  proof -
    fix b assume "b < n" "b < length (objs h)"
    then have "take n (objs h') ! b = objs h' ! b" "take n (objs h) ! b = objs h ! b"
      by simp_all
    with 1(3) show "objs h' ! b = objs h ! b" by simp
  qed
  show ?case
  proof (cases "a < length (objs h)")
    case False
    with len[OF 1(2)] show ?thesis by (simp add: get_prop_invalid)
  next
    case True
    note a' = len[OF 1(2)] nth[OF 1(2) True]
    show ?thesis
    proof (cases "f (objs h ! a)")
      case (Some x)
      with True a' show ?thesis by (simp add: get_prop_own)
    next
      case None
      show ?thesis
      proof (cases "proto (objs h ! a)")
        case pn: None
        with None True a' show ?thesis
          by (subst get_prop.simps, subst (2) get_prop.simps) simp
      next
        case (Some p)
        show ?thesis
        proof (cases "p < a")
          case False
          with None Some True a' show ?thesis
            by (subst get_prop.simps, subst (2) get_prop.simps) simp
        next
          case pa: True
          with 1(2) have "p < n" by simp
          from 1(1)[OF True None Some pa this 1(3)]
          have "get_prop f h' p = get_prop f h p" .
          with None Some True a' pa show ?thesis
            by (subst get_prop.simps, subst (2) get_prop.simps) simp
        qed
      qed
    qed
  qed
qed

text \<open>Of the objects that exist, a part call writes to its receiver only.\<close>

lemma apply_part_frame:
  assumes "x \<noteq> this" and "x < length (objs h)"
  shows "objs (fst (apply_part h this p)) ! x = objs h ! x"
proof (cases p)
  case (Pair k v)
  with assms show ?thesis
    by (cases k)
      (simp_all add: part_defs set_used_def new_instance_def append_selector_def nth_append
        split: option.splits)
qed

lemma apply_part_length:
  "length (objs h) \<le> length (objs (fst (apply_part h this p)))"
proof (cases p)
  case (Pair k v)
  then show ?thesis
    by (cases k)
      (simp_all add: part_defs set_used_def new_instance_def append_selector_def
        split: option.splits)
qed

lemma stringify_own:
  "a < length (objs h) \<Longrightarrow> selector (objs h ! a) = Some s \<Longrightarrow> stringify h a = Str s"
  by (simp add: stringify_def get_selector_def get_prop_own)

lemma stringify_valid: "stringify h a = Str s \<Longrightarrow> a < length (objs h)"
  by (auto simp: stringify_def get_selector_def split: option.splits dest: get_prop_valid)

section \<open>The examples of the source's comment\<close>

lemma doc_example_1:
  "snd (run_chain init_heap cssSelectorBuilder
          [(Id, ''main''), (Class, ''container''), (Class, ''editable'')]) = Inr 1
   \<and> stringify (fst (run_chain init_heap cssSelectorBuilder
                       [(Id, ''main''), (Class, ''container''), (Class, ''editable'')])) 1
       = Str ''#main.container.editable''"
  by (simp add: eval_defs)

lemma doc_example_2:
  \<open>snd (run_chain init_heap cssSelectorBuilder
          [(Element, ''a''), (Attribute, ''href$=".png"''), (PseudoClass, ''focus'')]) = Inr 1
   \<and> stringify (fst (run_chain init_heap cssSelectorBuilder
                       [(Element, ''a''), (Attribute, ''href$=".png"''), (PseudoClass, ''focus'')])) 1
       = Str ''a[href$=".png"]:focus''\<close>
  by (simp add: eval_defs)

lemma doc_example_3:
  "stringify doc_example_heap 7
     = Str ''div#main.container.draggable + table#data ~ tr:nth-of-type(even)   td:nth-of-type(even)''"
  by (simp add: doc_example_heap_def eval_defs)

section \<open>Prototype links\<close>

text \<open>
  Calls made on objects that exist keep every prototype link pointing to an older object,
  so in the stores such calls produce the comparison in \<open>get_prop\<close> never ends a lookup:
  the lookup is the plain walk along the links.
\<close>

lemma links_down_append:
  assumes "links_down h" and "this < length (objs h)"
  shows "links_down (h\<lparr>objs := objs h @ [\<lparr>proto = Some this, selector = s, usedSelectors = u\<rparr>]\<rparr>)"
  using assms by (auto simp: links_down_def nth_append less_Suc_eq)

lemma links_down_flagobjs [simp]: "links_down (h\<lparr>flagobjs := fs\<rparr>) = links_down h"
  by (simp add: links_down_def)

lemma links_down_append_selector:
  assumes "links_down h"
  shows "links_down (append_selector h this s)"
  unfolding links_down_def
proof (intro allI impI)
  fix a p
  assume a: "a < length (objs (append_selector h this s))"
    and p: "proto (objs (append_selector h this s) ! a) = Some p"
  from a have "proto (objs (append_selector h this s) ! a) = proto (objs h ! a)"
    by (cases "a = this") (simp_all add: append_selector_def)
  with assms a p show "p < a"
    by (simp add: links_down_def append_selector_def)
qed

lemma links_down_set_used: "links_down h \<Longrightarrow> links_down (fst (set_used h this upd))"
  by (simp add: set_used_def split: option.splits)

lemma links_down_new_instance:
  "links_down h \<Longrightarrow> this < length (objs h) \<Longrightarrow> links_down (fst (new_instance h this s fl))"
  using links_down_append [of h this "Some s" "Some (length (flagobjs h))"]
  by (simp add: new_instance_def links_down_def)

lemma links_down_step:
  assumes "links_down h" and "receiver c < length (objs h)"
  shows "links_down (step h c)"
proof (cases c)
  case (Part this p)
  obtain k v where "p = (k, v)" by (cases p)
  with Part assms show ?thesis
    by (cases k)
      (simp_all add: part_defs links_down_set_used links_down_append_selector
        links_down_new_instance)
next
  case (Combine this s1 t s2)
  with assms show ?thesis
    by (simp add: combine_def links_down_append)
qed

lemma links_down_init: "links_down init_heap"
  by (simp add: links_down_def init_heap_def)

lemma get_prop_links_down:
  assumes "links_down h" and "a < length (objs h)"
  shows "get_prop f h a =
           (case f (objs h ! a) of
              Some x \<Rightarrow> Some x
            | None \<Rightarrow> (case proto (objs h ! a) of None \<Rightarrow> None | Some p \<Rightarrow> get_prop f h p))"
  using assms
  by (subst get_prop.simps) (auto simp: links_down_def split: option.splits)

lemma links_down_exec:
  "links_down h \<Longrightarrow> receivers_exist h cs \<Longrightarrow> links_down (exec h cs)"
  by (induction cs arbitrary: h) (simp_all add: links_down_step)

section \<open>The builder object itself is never written\<close>

lemma root_intact_get:
  "root_intact h \<Longrightarrow> get_prop selector h 0 = None \<and> get_prop usedSelectors h 0 = None"
  by (subst get_prop.simps, subst (2) get_prop.simps) (simp add: root_intact_def)

lemma root_intact_new_instance: "root_intact h \<Longrightarrow> root_intact (fst (new_instance h this s fl))"
  by (simp add: new_instance_def root_intact_def nth_append)

lemma root_intact_append_selector:
  assumes r: "root_intact h" and t: "truthy (get_selector h this)"
  shows "root_intact (append_selector h this s)"
proof -
  have "this \<noteq> 0"
  proof
    assume "this = 0"
    with r t show False by (simp add: get_selector_def root_intact_get)
  qed
  with r show ?thesis
    by (simp add: root_intact_def append_selector_def)
qed

lemma root_intact_set_used: "root_intact h \<Longrightarrow> root_intact (fst (set_used h this upd))"
  by (simp add: set_used_def root_intact_def split: option.splits)

lemma root_intact_apply_part:
  assumes "root_intact h"
  shows "root_intact (fst (apply_part h this p))"
proof (cases p)
  case (Pair k v)
  with assms show ?thesis
    by (cases k)
      (simp_all add: part_defs root_intact_set_used root_intact_append_selector
        root_intact_new_instance)
qed

lemma root_intact_step:
  assumes "root_intact h"
  shows "root_intact (step h c)"
proof (cases c)
  case (Part this p)
  with assms show ?thesis by (simp add: root_intact_apply_part)
next
  case (Combine this s1 t s2)
  with assms show ?thesis by (simp add: combine_def root_intact_def nth_append)
qed

lemma root_intact_exec: "root_intact h \<Longrightarrow> root_intact (exec h cs)"
  by (induction cs arbitrary: h) (simp_all add: root_intact_step)

lemma root_intact_init: "root_intact init_heap"
  by (simp add: root_intact_def init_heap_def)

section \<open>One part call, and a chain of them\<close>

lemma get_selector_flagobjs [simp]: "get_selector (h\<lparr>flagobjs := fs\<rparr>) a = get_selector h a"
  by (simp add: get_selector_def)

text \<open>The two ways a part method ends when its guards pass.\<close>

lemma in_place:
  assumes "get_selector h this = Str s" and "get_prop usedSelectors h this = Some u"
  shows "snd (set_used (append_selector h this t) this upd) = Inr this"
    and "get_selector (fst (set_used (append_selector h this t) this upd)) this = Str (s @ t)"
    and "get_prop usedSelectors (fst (set_used (append_selector h this t) this upd)) this = Some u"
    and "used (fst (set_used (append_selector h this t) this upd)) this f
           = (if u < length (flagobjs h) then f (upd (flagobjs h ! u)) else f (flagobjs h ! u))"
  using assms
  by (simp_all add: set_used_def used_def get_selector_append_selector list_update_beyond)


lemma created:
  shows "snd (new_instance h this t fl) = Inr (length (objs h))"
    and "get_selector (fst (new_instance h this t fl)) (length (objs h)) = Str t"
    and "get_prop usedSelectors (fst (new_instance h this t fl)) (length (objs h))
           = Some (length (flagobjs h))"
    and "used (fst (new_instance h this t fl)) (length (objs h)) f = f fl"
  by (simp_all add: new_instance_def used_def get_selector_def get_prop_own)

lemma not_truthy_rendered: "\<not> truthy x \<Longrightarrow> rendered x = []"
  by (cases x) simp_all

lemma truthy_Str: "truthy x \<Longrightarrow> \<exists>s. x = Str s \<and> s \<noteq> []"
  by (cases x) simp_all

lemma part_step:
  assumes nt: "truthy (get_selector h this) \<longrightarrow> get_prop usedSelectors h this \<noteq> None"
    and ok: "\<forall>k'. used h this (flag_of k') \<longrightarrow> may_follow k' k"
  shows "\<exists>h' a. apply_part h this (k, v) = (h', Inr a)
           \<and> get_selector h' a = Str (rendered (get_selector h this) @ fragment (k, v))
           \<and> get_prop usedSelectors h' a \<noteq> None
           \<and> (\<forall>k'. used h' a (flag_of k') \<longrightarrow> k' = k \<or> used h this (flag_of k'))
           \<and> a = (if truthy (get_selector h this) then this else length (objs h))"
proof -
  note oks = ok[rule_format, of Element] ok[rule_format, of Id] ok[rule_format, of Class]
    ok[rule_format, of Attribute] ok[rule_format, of PseudoClass] ok[rule_format, of PseudoElement]
  show ?thesis
  proof (cases "truthy (get_selector h this)")
    case False
    note r = not_truthy_rendered[OF False]
    have allk: "\<And>P. (\<forall>k'. P k') = (P Element \<and> P Id \<and> P Class \<and> P Attribute \<and> P PseudoClass \<and> P PseudoElement)"
      by (metis kind.exhaust)
    from False oks r show ?thesis
      by (cases k)
         (auto simp: part_defs may_follow_def prod_eq_iff created allk)
  next
    case True
    then obtain s where s: "get_selector h this = Str s" "s \<noteq> []"
      by (auto dest: truthy_Str)
    from True nt obtain u where u: "get_prop usedSelectors h this = Some u" by auto
    have allk: "\<And>P. (\<forall>k'. P k') = (P Element \<and> P Id \<and> P Class \<and> P Attribute \<and> P PseudoClass \<and> P PseudoElement)"
      by (metis kind.exhaust)
    have uu: "\<And>f. used h this f = f (flagobjs h ! u)" by (simp add: used_def u)
    from True oks s show ?thesis
      by (cases k)
         (auto simp: part_defs may_follow_def prod_eq_iff in_place[OF s(1) u] allk uu)
  qed
qed


lemma kind_order_inj: "kind_order k = kind_order k' \<Longrightarrow> k = k'"
  by (cases k; cases k') simp_all

lemma in_order_Cons:
  assumes "in_order (p # ps)"
  shows "in_order ps" and "\<forall>q\<in>set ps. may_follow (fst p) (fst q)"
proof -
  from assms show "in_order ps"
    by (auto simp: in_order_def split: if_splits)
  show "\<forall>q\<in>set ps. may_follow (fst p) (fst q)"
  proof
    fix q assume q: "q \<in> set ps"
    with assms have le: "kind_order (fst p) \<le> kind_order (fst q)"
      by (auto simp: in_order_def)
    show "may_follow (fst p) (fst q)"
    proof (cases "kind_order (fst p) < kind_order (fst q)")
      case True
      then show ?thesis by (simp add: may_follow_def)
    next
      case False
      with le have eq: "fst p = fst q" by (simp add: kind_order_inj)
      from q have "fst q \<in> set (map fst ps)" by simp
      then have "count_list (map fst ps) (fst q) \<noteq> 0"
        by (simp only: count_list_0_iff) simp
      with eq have "2 \<le> count_list (map fst (p # ps)) (fst p)" by simp
      with assms have "\<not> once_only (fst p)"
        by (cases "fst p") (auto simp: in_order_def)
      with eq show ?thesis by (simp add: may_follow_def)
    qed
  qed
qed

lemma run_chain_building:
  assumes "truthy (get_selector h this) \<longrightarrow> get_prop usedSelectors h this \<noteq> None"
    and "\<forall>k'. used h this (flag_of k') \<longrightarrow> (\<forall>p\<in>set ps. may_follow k' (fst p))"
    and "in_order ps" and "ps \<noteq> []"
  shows "\<exists>h' a. run_chain h this ps = (h', Inr a)
           \<and> get_selector h' a = Str (rendered (get_selector h this) @ concat (map fragment ps))"
  using assms
proof (induction ps arbitrary: h this)
  case Nil
  then show ?case by simp
next
  case (Cons p ps)
  obtain k v where p: "p = (k, v)" by (cases p)
  from Cons.prems(2) p have "\<forall>k'. used h this (flag_of k') \<longrightarrow> may_follow k' k"
    by simp
  from part_step [OF Cons.prems(1) this, of v]
  obtain h1 a1 where step: "apply_part h this (k, v) = (h1, Inr a1)"
    and sel: "get_selector h1 a1 = Str (rendered (get_selector h this) @ fragment (k, v))"
    and fl: "get_prop usedSelectors h1 a1 \<noteq> None"
    and us: "\<forall>k'. used h1 a1 (flag_of k') \<longrightarrow> k' = k \<or> used h this (flag_of k')"
    by blast
  show ?case
  proof (cases "ps = []")
    case True
    with p step sel show ?thesis by simp
  next
    case False
    from in_order_Cons [OF Cons.prems(3)] p
    have io: "in_order ps" and mf: "\<forall>q\<in>set ps. may_follow k (fst q)" by simp_all
    have "\<forall>k'. used h1 a1 (flag_of k') \<longrightarrow> (\<forall>q\<in>set ps. may_follow k' (fst q))"
      using us mf Cons.prems(2) by auto
    from Cons.IH [OF _ this io False, of ] fl
    obtain h' a where "run_chain h1 a1 ps = (h', Inr a)"
      and "get_selector h' a = Str (rendered (get_selector h1 a1) @ concat (map fragment ps))"
      by blast
    with p step sel show ?thesis by simp
  qed
qed

lemma stateless_facts:
  assumes "stateless h r"
  shows "get_selector h r = Undefined" and "used h r f = False"
  using assms by (simp_all add: stateless_def get_selector_def used_def)

lemma used_has_flags: "used h this f \<Longrightarrow> get_prop usedSelectors h this \<noteq> None"
  by (auto simp: used_def split: option.splits)


lemma element_stateless:
  assumes "stateless h r"
  shows "element h r v = new_instance h r v
           \<lparr>u_element = True, u_id = False, u_className = False, u_attribute = False,
            u_pseudoClass = False, u_pseudoElement = False\<rparr>"
  using assms by (simp add: element_def stateless_facts)

section \<open>What a chain leaves alone\<close>

lemma apply_part_returned:
  assumes "snd (apply_part h this p) = Inr a"
  shows "a = this \<or> a = length (objs h)"
proof (cases p)
  case (Pair k v)
  with assms show ?thesis
    by (cases k)
      (auto simp: part_defs set_used_def new_instance_def split: if_splits option.splits)
qed

lemma apply_part_no_text:
  assumes "\<not> truthy (get_selector h this)"
  shows "take (length (objs h)) (objs (fst (apply_part h this p))) = objs h"
proof (cases p)
  case (Pair k v)
  with assms show ?thesis
    by (cases k) (simp_all add: part_defs new_instance_def)
qed

lemma apply_part_prefix:
  assumes "n \<le> this" and "n \<le> length (objs h)"
  shows "take n (objs (fst (apply_part h this p))) = take n (objs h)"
proof (rule nth_take_lemma)
  show "n \<le> length (objs (fst (apply_part h this p)))"
    using assms(2) apply_part_length [of h this p] by simp
  show "n \<le> length (objs h)" by fact
  show "i < n \<longrightarrow> objs (fst (apply_part h this p)) ! i = objs h ! i" for i
    using assms by (auto intro: apply_part_frame)
qed

lemma run_chain_prefix:
  assumes "n \<le> this" and "n \<le> length (objs h)"
  shows "take n (objs (fst (run_chain h this ps))) = take n (objs h)
         \<and> (\<forall>a. snd (run_chain h this ps) = Inr a \<longrightarrow> n \<le> a)"
  using assms
proof (induction ps arbitrary: h this)
  case Nil
  then show ?case by simp
next
  case (Cons p ps)
  obtain h1 r where ap: "apply_part h this p = (h1, r)" by (cases "apply_part h this p")
  have pre: "take n (objs h1) = take n (objs h)"
    using apply_part_prefix [OF Cons.prems, of p] ap by simp
  have len: "n \<le> length (objs h1)"
    using Cons.prems(2) apply_part_length [of h this p] ap by simp
  show ?case
  proof (cases r)
    case (Inl e)
    with ap pre show ?thesis by simp
  next
    case (Inr a1)
    with ap have "snd (apply_part h this p) = Inr a1" by simp
    from apply_part_returned [OF this] Cons.prems have "n \<le> a1" by auto
    from Cons.IH [OF this len] ap Inr pre show ?thesis by simp
  qed
qed

lemma apply_part_flags:
  assumes inv: "truthy (get_selector h this) \<longrightarrow>
                  (\<exists>u. get_prop usedSelectors h this = Some u \<and> m \<le> u \<and> u < length (flagobjs h))"
    and m: "m \<le> length (flagobjs h)"
  shows "take m (flagobjs (fst (apply_part h this p))) = take m (flagobjs h)"
    and "length (flagobjs h) \<le> length (flagobjs (fst (apply_part h this p)))"
    and "snd (apply_part h this p) = Inr a \<Longrightarrow>
           \<exists>u. get_prop usedSelectors (fst (apply_part h this p)) a = Some u \<and> m \<le> u
                \<and> u < length (flagobjs (fst (apply_part h this p)))"
proof -
  obtain k v where p: "p = (k, v)" by (cases p)
  show "take m (flagobjs (fst (apply_part h this p))) = take m (flagobjs h)"
   and "length (flagobjs h) \<le> length (flagobjs (fst (apply_part h this p)))"
   and "snd (apply_part h this p) = Inr a \<Longrightarrow>
           \<exists>u. get_prop usedSelectors (fst (apply_part h this p)) a = Some u \<and> m \<le> u
                \<and> u < length (flagobjs (fst (apply_part h this p)))"
  proof (atomize (full), cases "truthy (get_selector h this)")
    case False
    with m show "take m (flagobjs (fst (apply_part h this p))) = take m (flagobjs h) \<and>
      length (flagobjs h) \<le> length (flagobjs (fst (apply_part h this p))) \<and>
      (snd (apply_part h this p) = Inr a \<longrightarrow>
        (\<exists>u. get_prop usedSelectors (fst (apply_part h this p)) a = Some u \<and> m \<le> u
                \<and> u < length (flagobjs (fst (apply_part h this p)))))"
      unfolding p
      by (cases k) (auto simp: part_defs new_instance_def get_prop_own)
  next
    case True
    with inv obtain u where u: "get_prop usedSelectors h this = Some u" "m \<le> u"
      "u < length (flagobjs h)" by blast
    from True u show "take m (flagobjs (fst (apply_part h this p))) = take m (flagobjs h) \<and>
      length (flagobjs h) \<le> length (flagobjs (fst (apply_part h this p))) \<and>
      (snd (apply_part h this p) = Inr a \<longrightarrow>
        (\<exists>u. get_prop usedSelectors (fst (apply_part h this p)) a = Some u \<and> m \<le> u
                \<and> u < length (flagobjs (fst (apply_part h this p)))))"
      unfolding p
      by (cases k) (auto simp: part_defs set_used_def)
  qed
qed

lemma run_chain_flags:
  assumes "truthy (get_selector h this) \<longrightarrow>
             (\<exists>u. get_prop usedSelectors h this = Some u \<and> m \<le> u \<and> u < length (flagobjs h))"
    and "m \<le> length (flagobjs h)" and "ps \<noteq> []"
  shows "take m (flagobjs (fst (run_chain h this ps))) = take m (flagobjs h)
         \<and> (\<forall>a. snd (run_chain h this ps) = Inr a \<longrightarrow>
               (\<exists>u. get_prop usedSelectors (fst (run_chain h this ps)) a = Some u \<and> m \<le> u
                    \<and> u < length (flagobjs (fst (run_chain h this ps)))))"
  using assms
proof (induction ps arbitrary: h this)
  case Nil
  then show ?case by simp
next
  case (Cons p ps)
  obtain h1 r where ap: "apply_part h this p = (h1, r)" by (cases "apply_part h this p")
  note fl = apply_part_flags [OF Cons.prems(1,2), of p]
  from fl(1) ap have pre: "take m (flagobjs h1) = take m (flagobjs h)" by simp
  from fl(2) ap Cons.prems(2) have len: "m \<le> length (flagobjs h1)" by simp
  show ?case
  proof (cases r)
    case (Inl e)
    with ap pre show ?thesis by simp
  next
    case (Inr a1)
    with fl(3) [of a1] ap
    have inv1: "\<exists>u. get_prop usedSelectors h1 a1 = Some u \<and> m \<le> u \<and> u < length (flagobjs h1)"
      by simp
    show ?thesis
    proof (cases "ps = []")
      case True
      with ap Inr pre inv1 show ?thesis by simp
    next
      case False
      from Cons.IH [OF _ len False, of a1] inv1 ap Inr pre show ?thesis by simp
    qed
  qed
qed

lemma chain_from_stateless:
  assumes st: "stateless h r" and ne: "ps \<noteq> []" and io: "in_order ps"
  shows "\<exists>h' a u. run_chain h r ps = (h', Inr a)
           \<and> stringify h' a = Str (concat (map fragment ps))
           \<and> length (objs h) \<le> a
           \<and> take (length (objs h)) (objs h') = objs h
           \<and> take (length (flagobjs h)) (flagobjs h') = flagobjs h
           \<and> get_prop usedSelectors h' a = Some u
           \<and> length (flagobjs h) \<le> u \<and> u < length (flagobjs h')"
proof -
  from run_chain_building [of h r ps] assms
  obtain h' a where rc: "run_chain h r ps = (h', Inr a)"
    and sel: "stringify h' a = Str (concat (map fragment ps))"
    by (auto simp: stateless_facts stringify_def)
  from ne obtain p ps' where ps: "ps = p # ps'" by (cases ps) auto
  obtain h1 r1 where ap: "apply_part h r p = (h1, r1)" by (cases "apply_part h r p")
  with rc ps obtain a1 where r1: "r1 = Inr a1" and rest: "run_chain h1 a1 ps' = (h', Inr a)"
    by (cases r1) auto
  have nt: "\<not> truthy (get_selector h r)" using st by (simp add: stateless_facts)
  have pre1: "take (length (objs h)) (objs h1) = objs h"
    using apply_part_no_text [OF nt, of p] ap by simp
  have a1: "a1 = length (objs h)"
  proof -
    obtain k v where "p = (k, v)" by (cases p)
    with part_step [of h r k v] ap r1 nt st show ?thesis
      by (auto simp: stateless_facts)
  qed
  have len: "length (objs h) \<le> length (objs h1)"
    using apply_part_length [of h r p] ap by simp
  from run_chain_prefix [of "length (objs h)" a1 h1 ps'] a1 len rest pre1
  have objs: "take (length (objs h)) (objs h') = objs h" "length (objs h) \<le> a"
    by simp_all
  from run_chain_flags [of h r "length (flagobjs h)" ps] nt ne rc
  obtain u where "take (length (flagobjs h)) (flagobjs h') = flagobjs h"
    "get_prop usedSelectors h' a = Some u" "length (flagobjs h) \<le> u" "u < length (flagobjs h')"
    by auto
  with rc sel objs show ?thesis by simp
qed

section \<open>The used kinds of a chain\<close>

text \<open>
  The record of used kinds that the builder of a chain finds is followed through the
  calls of the chain: the first call creates it, and so does the second where the first
  was \<^verbatim>\<open>element('')\<close>; every other call writes the incoming kind into it.
\<close>

lemma empty_start_Cons:
  "empty_start ((k, v) # rest) = (k = Element \<and> v = [] \<and> rest \<noteq> [])"
  by (cases k; cases v; cases rest) simp_all

lemma all_kinds:
  "(\<forall>k. P k) = (P Element \<and> P Id \<and> P Class \<and> P Attribute \<and> P PseudoClass \<and> P PseudoElement)"
  by (metis kind.exhaust)

lemma set_used_flagobjs_length:
  "length (flagobjs (fst (set_used h this upd))) = length (flagobjs h)"
  by (simp add: set_used_def split: option.splits)

lemma apply_part_in_place:
  assumes sel: "get_selector h this = Str s" and ne: "s \<noteq> []"
    and us: "get_prop usedSelectors h this = Some u" and u: "u < length (flagobjs h)"
    and ap: "apply_part h this (k, v) = (h1, Inr a1)"
  shows "a1 = this" and "get_selector h1 this = Str (s @ fragment (k, v))"
    and "get_prop usedSelectors h1 this = Some u" and "u < length (flagobjs h1)"
    and "\<forall>k'. used h1 this (flag_of k') = (k' = k \<or> used h this (flag_of k'))"
proof -
  let ?r = "apply_part h this (k, v)"
  have uu: "\<And>f. used h this f = f (flagobjs h ! u)" by (simp add: used_def us)
  have "(\<exists>e. snd ?r = Inl e)
        \<or> (snd ?r = Inr this \<and> get_selector (fst ?r) this = Str (s @ fragment (k, v))
            \<and> get_prop usedSelectors (fst ?r) this = Some u \<and> u < length (flagobjs (fst ?r))
            \<and> (\<forall>k'. used (fst ?r) this (flag_of k') = (k' = k \<or> used h this (flag_of k'))))"
    using sel ne u
    by (cases k)
      (simp_all add: part_defs in_place [OF sel us] all_kinds uu set_used_flagobjs_length)
  with ap show "a1 = this" and "get_selector h1 this = Str (s @ fragment (k, v))"
    and "get_prop usedSelectors h1 this = Some u" and "u < length (flagobjs h1)"
    and "\<forall>k'. used h1 this (flag_of k') = (k' = k \<or> used h this (flag_of k'))"
    by simp_all
qed

lemma apply_part_create:
  assumes nt: "\<not> truthy (get_selector h this)"
    and ap: "apply_part h this (k, v) = (h1, Inr a1)"
  shows "a1 = length (objs h)" and "get_selector h1 a1 = Str (fragment (k, v))"
    and "get_prop usedSelectors h1 a1 = Some (length (flagobjs h))"
    and "length (flagobjs h) < length (flagobjs h1)"
    and "\<forall>k'. used h1 a1 (flag_of k') = (k' = k)"
proof -
  let ?r = "apply_part h this (k, v)" and ?n = "length (objs h)"
  have "(\<exists>e. snd ?r = Inl e)
        \<or> (snd ?r = Inr ?n \<and> get_selector (fst ?r) ?n = Str (fragment (k, v))
            \<and> get_prop usedSelectors (fst ?r) ?n = Some (length (flagobjs h))
            \<and> length (flagobjs h) < length (flagobjs (fst ?r))
            \<and> (\<forall>k'. used (fst ?r) ?n (flag_of k') = (k' = k)))"
    using nt
    by (cases k) (simp_all add: part_defs created all_kinds, simp_all add: new_instance_def)
  with ap show "a1 = length (objs h)" and "get_selector h1 a1 = Str (fragment (k, v))"
    and "get_prop usedSelectors h1 a1 = Some (length (flagobjs h))"
    and "length (flagobjs h) < length (flagobjs h1)"
    and "\<forall>k'. used h1 a1 (flag_of k') = (k' = k)"
    by auto
qed

lemma apply_part_allowed:
  assumes "apply_part h this (k, v) = (h1, Inr a1)" and "used h this (flag_of k')"
  shows "may_follow k' k"
  using assms
  by (cases k; cases k') (simp_all add: part_defs may_follow_def split: if_splits)

lemma run_chain_in_place:
  assumes "get_selector h this = Str s" and "s \<noteq> []"
    and "get_prop usedSelectors h this = Some u" and "u < length (flagobjs h)"
    and "run_chain h this ps = (h', Inr a)"
  shows "a = this \<and> get_selector h' this = Str (s @ concat (map fragment ps))
         \<and> get_prop usedSelectors h' this \<noteq> None
         \<and> (\<forall>k. used h' this (flag_of k) = (used h this (flag_of k) \<or> k \<in> kinds ps))
         \<and> (\<forall>k' k. used h this (flag_of k') \<longrightarrow> k \<in> kinds ps \<longrightarrow> may_follow k' k)"
  using assms
proof (induction ps arbitrary: h s)
  case Nil
  then show ?case by (simp add: kinds_def)
next
  case (Cons p ps)
  obtain k v where p: "p = (k, v)" by (cases p)
  obtain h1 r1 where ap: "apply_part h this (k, v) = (h1, r1)"
    by (cases "apply_part h this (k, v)")
  with Cons.prems(5) p obtain a1 where r1: "r1 = Inr a1" and rest: "run_chain h1 a1 ps = (h', Inr a)"
    by (cases r1) auto
  note st = apply_part_in_place [OF Cons.prems(1-4) ap [unfolded r1]]
  from rest st(1) have rest': "run_chain h1 this ps = (h', Inr a)" by simp
  have "s @ fragment (k, v) \<noteq> []" using Cons.prems(2) by simp
  note ih = Cons.IH [OF st(2) this st(3) st(4) rest']
  have "may_follow k' k''" if "used h this (flag_of k')" and "k'' \<in> kinds (p # ps)" for k' k''
  proof (cases "k'' = k")
    case True
    with apply_part_allowed [OF ap [unfolded r1] that(1)] show ?thesis by simp
  next
    case False
    with that(2) p have "k'' \<in> kinds ps" by (auto simp: kinds_def)
    moreover from that(1) st(5) have "used h1 this (flag_of k')" by simp
    ultimately show ?thesis using ih by blast
  qed
  moreover from ih st(5) p
  have "a = this \<and> get_selector h' this = Str (s @ concat (map fragment (p # ps)))
         \<and> get_prop usedSelectors h' this \<noteq> None
         \<and> (\<forall>k. used h' this (flag_of k) = (used h this (flag_of k) \<or> k \<in> kinds (p # ps)))"
    by (auto simp: kinds_def)
  ultimately show ?case by blast
qed

lemma fragment_empty: "fragment p = [] \<longleftrightarrow> p = (Element, [])"
proof (cases p)
  case (Pair k v)
  then show ?thesis by (cases k) simp_all
qed

lemma chain_record:
  assumes st: "stateless h r" and ne: "ps \<noteq> []" and rc: "run_chain h r ps = (h', Inr a)"
  shows "get_selector h' a = Str (concat (map fragment ps))"
    and "get_prop usedSelectors h' a \<noteq> None"
    and "\<forall>k. used h' a (flag_of k) = (k \<in> kinds (if empty_start ps then tl ps else ps))"
    and "empty_start ps \<longrightarrow> Element \<notin> kinds (tl ps)"
proof -
  from ne obtain p1 rest where ps: "ps = p1 # rest" by (cases ps) auto
  obtain k1 v1 where p1: "p1 = (k1, v1)" by (cases p1)
  obtain h1 r1 where ap1: "apply_part h r (k1, v1) = (h1, r1)"
    by (cases "apply_part h r (k1, v1)")
  with rc ps p1 obtain a1 where r1: "r1 = Inr a1" and rc1: "run_chain h1 a1 rest = (h', Inr a)"
    by (cases r1) auto
  have nt: "\<not> truthy (get_selector h r)" using st by (simp add: stateless_facts)
  note c1 = apply_part_create [OF nt ap1 [unfolded r1]]
  have "get_selector h' a = Str (concat (map fragment ps))
        \<and> get_prop usedSelectors h' a \<noteq> None
        \<and> (\<forall>k. used h' a (flag_of k) = (k \<in> kinds (if empty_start ps then tl ps else ps)))
        \<and> (empty_start ps \<longrightarrow> Element \<notin> kinds (tl ps))"
  proof (cases "fragment (k1, v1) = []")
    case False
    then have ns: "\<not> empty_start ps" using ps p1 by (auto simp: fragment_empty empty_start_Cons)
    from run_chain_in_place [OF c1(2) False c1(3) c1(4) rc1] c1(5) ns ps p1
    show ?thesis by (auto simp: kinds_def)
  next
    case True
    then have e: "k1 = Element" "v1 = []" by (simp_all add: fragment_empty)
    show ?thesis
    proof (cases rest)
      case Nil
      with rc1 c1 True ps p1 e show ?thesis by (auto simp: kinds_def)
    next
      case (Cons p2 rest2)
      obtain k2 v2 where p2: "p2 = (k2, v2)" by (cases p2)
      obtain h2 r2 where ap2: "apply_part h1 a1 (k2, v2) = (h2, r2)"
        by (cases "apply_part h1 a1 (k2, v2)")
      with rc1 Cons p2 obtain a2 where r2: "r2 = Inr a2"
        and rc2: "run_chain h2 a2 rest2 = (h', Inr a)"
        by (cases r2) auto
      have nt1: "\<not> truthy (get_selector h1 a1)" using c1(2) True by simp
      note c2 = apply_part_create [OF nt1 ap2 [unfolded r2]]
      have "k2 \<noteq> Element"
      proof
        assume k2: "k2 = Element"
        from c1(5) e have "used h1 a1 u_element" by (simp add: all_kinds)
        with ap2 r2 k2 show False by (simp add: element_def)
      qed
      then have f2: "fragment (k2, v2) \<noteq> []" by (simp add: fragment_empty)
      have es: "empty_start ps" using ps p1 e Cons by (simp add: empty_start_Cons)
      note ip = run_chain_in_place [OF c2(2) f2 c2(3) c2(4) rc2]
      have "Element \<notin> kinds rest2"
      proof
        assume "Element \<in> kinds rest2"
        moreover from c2(5) have "used h2 a2 (flag_of k2)" by simp
        ultimately have "may_follow k2 Element" using ip by blast
        with \<open>k2 \<noteq> Element\<close> show False by (simp add: may_follow_def)
      qed
      with \<open>k2 \<noteq> Element\<close> have "Element \<notin> kinds (tl ps)"
        using ps Cons p2 by (simp add: kinds_def)
      with ip c2(5) es ps p1 e Cons p2 True
      show ?thesis by (auto simp: kinds_def)
    qed
  qed
  then show "get_selector h' a = Str (concat (map fragment ps))"
    and "get_prop usedSelectors h' a \<noteq> None"
    and "\<forall>k. used h' a (flag_of k) = (k \<in> kinds (if empty_start ps then tl ps else ps))"
    and "empty_start ps \<longrightarrow> Element \<notin> kinds (tl ps)"
    by simp_all
qed


text \<open>The guards, in terms of the receiver's record.\<close>

lemma own_flag_guard:
  assumes "once_only k" and "used h this (flag_of k)"
  shows "apply_part h this (k, v) = (h, Inl MoreThanOnce)"
  using assms by (cases k) (simp_all add: part_defs)

lemma higher_flag_guard:
  assumes "used h this (flag_of k')" and "kind_order k < kind_order k'"
  shows "apply_part h this (k, v) =
           (h, Inl (if (k = Element \<or> k = Id) \<and> used h this (flag_of k)
                    then MoreThanOnce else WrongOrder))"
  using assms by (cases k; cases k') (simp_all add: part_defs)

lemma empty_start_shape:
  assumes "empty_start ps"
  shows "\<exists>q qs. ps = (Element, []) # q # qs"
  using assms by (induction ps rule: empty_start.induct) simp_all

text \<open>Which kinds the record of a chain's builder holds, in terms of the parts applied.\<close>

lemma chain_flag:
  assumes "stateless h r" and "run_chain h r ps = (h', Inr a)" and "k \<in> kinds ps"
  shows "used h' a (flag_of k) = (\<not> (k = Element \<and> empty_start ps))"
proof -
  from assms(3) have ne: "ps \<noteq> []" by (auto simp: kinds_def)
  note cr = chain_record [OF assms(1) ne assms(2)]
  show ?thesis
  proof (cases "empty_start ps")
    case False
    with cr(3) assms(3) show ?thesis by simp
  next
    case True
    then obtain q qs where ps: "ps = (Element, []) # q # qs"
      by (auto dest: empty_start_shape)
    with assms(3) have "k = Element \<or> k \<in> kinds (tl ps)" by (auto simp: kinds_def)
    with cr(3,4) True show ?thesis by auto
  qed
qed

lemma element_after_chain:
  assumes "stateless h r" and "run_chain h r ps = (h', Inr a)" and el: "Element \<in> kinds ps"
  shows "element h' a v = (h', Inl (if empty_start ps then WrongOrder else MoreThanOnce))"
proof -
  note assms' = assms(1,2)
  note fl = chain_flag [OF assms' el]
  show ?thesis
  proof (cases "empty_start ps")
    case False
    with fl have "used h' a (flag_of Element)" by simp
    from own_flag_guard [OF _ this, of v] False show ?thesis by simp
  next
    case True
    then obtain q qs where ps: "ps = (Element, []) # q # qs"
      by (auto dest: empty_start_shape)
    then have q: "fst q \<in> kinds ps" by (simp add: kinds_def)
    from el have ne: "ps \<noteq> []" by (auto simp: kinds_def)
    from chain_record(4) [OF assms(1) ne assms(2)] True ps have "fst q \<noteq> Element"
      by (auto simp: kinds_def)
    with chain_flag [OF assms' q] have uq: "used h' a (flag_of (fst q))" by simp
    from \<open>fst q \<noteq> Element\<close> have "kind_order Element < kind_order (fst q)"
      by (cases "fst q") simp_all
    from higher_flag_guard [OF uq this, of v] fl True show ?thesis by simp
  qed
qed


lemma fragments_not_empty:
  assumes "k \<in> kinds ps" and "k \<noteq> Element"
  shows "concat (map fragment ps) \<noteq> []"
proof -
  from assms(1) obtain v where "(k, v) \<in> set ps" by (auto simp: kinds_def)
  moreover from assms(2) have "fragment (k, v) \<noteq> []" by (simp add: fragment_empty)
  ultimately show ?thesis by force
qed


section \<open>Failed calls\<close>

text \<open>
  C8. A part call that ends in one of the two exceptions the builder throws itself leaves
  the store as it was: the text and the used kinds of the receiver, and everything else.
  Both are thrown before the first assignment. (\<open>stringify\<close> only reads, and throws
  nothing.)
\<close>

theorem thrown_error_leaves_store:
  assumes "snd (apply_part h this p) = Inl MoreThanOnce \<or> snd (apply_part h this p) = Inl WrongOrder"
  shows "fst (apply_part h this p) = h"
proof (cases p)
  case (Pair k v)
  with assms show ?thesis
    by (cases k)
      (auto simp: part_defs set_used_not_thrown new_instance_returns split: if_splits)
qed

theorem thrown_error_leaves_store_witness:
  "snd (apply_part (fst (id_part init_heap cssSelectorBuilder ''main'')) 1 (Element, ''div''))
     = Inl WrongOrder
   \<and> fst (apply_part (fst (id_part init_heap cssSelectorBuilder ''main'')) 1 (Element, ''div''))
     = fst (id_part init_heap cssSelectorBuilder ''main'')"
proof -
  have thrown: "snd (apply_part (fst (id_part init_heap cssSelectorBuilder ''main'')) 1
                  (Element, ''div'')) = Inl WrongOrder"
    by (simp add: eval_defs)
  with thrown_error_leaves_store
         [of "fst (id_part init_heap cssSelectorBuilder ''main'')" 1 "(Element, ''div'')"]
  show ?thesis by blast
qed

section \<open>The guards of the part methods\<close>

text \<open>
  C6. On the builder a chain has returned, \<^verbatim>\<open>pseudoElement\<close> throws the "more then one
  time" error whenever a pseudo-element is among the parts applied to the chain, and the
  store stays as it was. For \<^verbatim>\<open>element\<close> the code departs from the claim: where an
  element is among the parts applied, the call throws and the store stays as it was, but
  the error is the "more then one time" error only for the chains that did not begin with
  \<^verbatim>\<open>element('')\<close> followed by another part. For those, the record of used kinds was
  made anew by the second part and holds no element, and the call throws the ordering
  error.
\<close>

theorem second_singleton_on_chain:
  assumes "stateless h r" and "run_chain h r ps = (h', Inr a)"
  shows "(PseudoElement \<in> kinds ps \<longrightarrow> pseudoElement h' a v = (h', Inl MoreThanOnce))
         \<and> (Element \<in> kinds ps \<longrightarrow>
              element h' a v = (h', Inl (if empty_start ps then WrongOrder else MoreThanOnce)))"
proof (intro conjI impI)
  assume "PseudoElement \<in> kinds ps"
  from chain_flag [OF assms this] have "used h' a (flag_of PseudoElement)" by simp
  from own_flag_guard [OF _ this, of v] show "pseudoElement h' a v = (h', Inl MoreThanOnce)"
    by simp
next
  assume "Element \<in> kinds ps"
  then show "element h' a v = (h', Inl (if empty_start ps then WrongOrder else MoreThanOnce))"
    by (rule element_after_chain [OF assms])
qed

theorem second_singleton_on_chain_witness:
  "stateless init_heap cssSelectorBuilder
   \<and> run_chain init_heap cssSelectorBuilder [(Element, []), (Id, ''main'')]
       = (fst (run_chain init_heap cssSelectorBuilder [(Element, []), (Id, ''main'')]), Inr 2)
   \<and> Element \<in> kinds [(Element, []), (Id, ''main'')]
   \<and> element (fst (run_chain init_heap cssSelectorBuilder [(Element, []), (Id, ''main'')])) 2 ''div''
       = (fst (run_chain init_heap cssSelectorBuilder [(Element, []), (Id, ''main'')]),
          Inl WrongOrder)
   \<and> run_chain init_heap cssSelectorBuilder [(Element, ''p''), (Id, ''main'')]
       = (fst (run_chain init_heap cssSelectorBuilder [(Element, ''p''), (Id, ''main'')]), Inr 1)
   \<and> Element \<in> kinds [(Element, ''p''), (Id, ''main'')]
   \<and> element (fst (run_chain init_heap cssSelectorBuilder [(Element, ''p''), (Id, ''main'')])) 1 ''div''
       = (fst (run_chain init_heap cssSelectorBuilder [(Element, ''p''), (Id, ''main'')]),
          Inl MoreThanOnce)
   \<and> run_chain init_heap cssSelectorBuilder [(PseudoElement, ''after'')]
       = (fst (run_chain init_heap cssSelectorBuilder [(PseudoElement, ''after'')]), Inr 1)
   \<and> PseudoElement \<in> kinds [(PseudoElement, ''after'')]
   \<and> pseudoElement (fst (run_chain init_heap cssSelectorBuilder [(PseudoElement, ''after'')])) 1
         ''before''
       = (fst (run_chain init_heap cssSelectorBuilder [(PseudoElement, ''after'')]),
          Inl MoreThanOnce)"
proof -
  have st: "stateless init_heap cssSelectorBuilder"
    by (simp add: stateless_def eval_defs)
  have e: "run_chain init_heap cssSelectorBuilder [(Element, []), (Id, ''main'')]
       = (fst (run_chain init_heap cssSelectorBuilder [(Element, []), (Id, ''main'')]), Inr 2)"
    by (simp add: eval_defs)
  have n: "run_chain init_heap cssSelectorBuilder [(Element, ''p''), (Id, ''main'')]
       = (fst (run_chain init_heap cssSelectorBuilder [(Element, ''p''), (Id, ''main'')]), Inr 1)"
    by (simp add: eval_defs)
  have p: "run_chain init_heap cssSelectorBuilder [(PseudoElement, ''after'')]
       = (fst (run_chain init_heap cssSelectorBuilder [(PseudoElement, ''after'')]), Inr 1)"
    by (simp add: eval_defs)
  from second_singleton_on_chain [OF st e, of "''div''"]
    second_singleton_on_chain [OF st n, of "''div''"]
    second_singleton_on_chain [OF st p, of "''before''"] st e n p
  show ?thesis by (simp add: kinds_def)
qed





section \<open>Rendering\<close>

text \<open>
  C3, as stated, fails: \<^verbatim>\<open>stringify\<close> on the builder that no part was applied to
  returns \<^verbatim>\<open>undefined\<close>. It has no throw statement; its result is the value of the
  property, whatever that is.
\<close>

theorem stringify_unbuilt_counterexample:
  "stringify init_heap cssSelectorBuilder = Undefined"
  by (simp add: eval_defs)

text \<open>
  C3, amended. \<^verbatim>\<open>stringify\<close> on \<^verbatim>\<open>cssSelectorBuilder\<close> itself, the one builder that
  exists before any part is applied, returns \<^verbatim>\<open>undefined\<close>, and goes on doing so
  whatever calls are made, on it or on any other object: none of them writes to it.
\<close>

theorem stringify_unbuilt:
  "stringify (exec init_heap cs) cssSelectorBuilder = Undefined"
proof -
  have "root_intact (exec init_heap cs)"
    using root_intact_init by (rule root_intact_exec)
  then show ?thesis
    by (simp add: stringify_def get_selector_def cssSelectorBuilder_def root_intact_get)
qed

text \<open>
  C4. For operands that render as strings, \<^verbatim>\<open>combine\<close> returns (it has no throw
  statement, and looks at the combinator only to copy it) an object that renders as
  the first operand's text, a space, the combinator, a space, and the second operand's
  text. The texts are those of the moment of the call: a part applied to either operand
  afterwards does not change what the composite renders.
\<close>

theorem combine_renders:
  assumes "stringify h a = Str ra" and "stringify h b = Str rb"
  shows "stringify (fst (combine h this a t b)) (snd (combine h this a t b))
           = Str (ra @ '' '' @ t @ '' '' @ rb)
         \<and> stringify (fst (apply_part (fst (combine h this a t b)) a p))
             (snd (combine h this a t b)) = Str (ra @ '' '' @ t @ '' '' @ rb)
         \<and> stringify (fst (apply_part (fst (combine h this a t b)) b p))
             (snd (combine h this a t b)) = Str (ra @ '' '' @ t @ '' '' @ rb)"
proof -
  let ?h = "fst (combine h this a t b)" and ?c = "snd (combine h this a t b)"
  let ?s = "ra @ '' '' @ t @ '' '' @ rb"
  have c: "?c = length (objs h)" and len: "?c < length (objs ?h)"
    and own: "selector (objs ?h ! ?c) = Some ?s"
    using assms by (simp_all add: combine_def)
  from assms have ne: "?c \<noteq> a" "?c \<noteq> b"
    by (auto simp: c dest: stringify_valid)
  have later: "stringify (fst (apply_part ?h x p)) ?c = Str ?s" if "?c \<noteq> x" for x
  proof (rule stringify_own)
    show "?c < length (objs (fst (apply_part ?h x p)))"
      using len apply_part_length [of ?h x p] by simp
    show "selector (objs (fst (apply_part ?h x p)) ! ?c) = Some ?s"
      using apply_part_frame [OF that len] own by simp
  qed
  from stringify_own [OF len own] later [OF ne(1)] later [OF ne(2)] show ?thesis by simp
qed


theorem combine_renders_witness:
  "stringify two_selectors 1 = Str ''div#main''
   \<and> stringify two_selectors 2 = Str ''table#data''
   \<and> stringify (fst (combine two_selectors cssSelectorBuilder 1 ''+'' 2))
         (snd (combine two_selectors cssSelectorBuilder 1 ''+'' 2)) = Str ''div#main + table#data''"
proof -
  have a: "stringify two_selectors 1 = Str ''div#main''"
    by (simp add: two_selectors_def eval_defs)
  have b: "stringify two_selectors 2 = Str ''table#data''"
    by (simp add: two_selectors_def eval_defs)
  from combine_renders [OF a b, of cssSelectorBuilder "''+''" "(Class, ''wide'')"] a b
  show ?thesis by simp
qed

section \<open>Chains\<close>

text \<open>
  C1, as stated, fails: \<^verbatim>\<open>id('main').id('data')\<close> is in non-decreasing order of kind
  and holds neither an element nor a pseudo-element, and the second call throws the
  "more then one time" error. The id is guarded like the element and the pseudo-element.
  And for the sequence of no part at all there is no text to render: the builder renders
  as \<^verbatim>\<open>undefined\<close>, not as the empty concatenation.
\<close>

theorem ordered_chain_counterexample:
  "sorted (map (kind_order \<circ> fst) [(Id, ''main''), (Id, ''data'')])
   \<and> count_list (map fst [(Id, ''main''), (Id, ''data'')]) Element \<le> 1
   \<and> count_list (map fst [(Id, ''main''), (Id, ''data'')]) PseudoElement \<le> 1
   \<and> snd (run_chain init_heap cssSelectorBuilder [(Id, ''main''), (Id, ''data'')])
       = Inl MoreThanOnce
   \<and> run_chain init_heap cssSelectorBuilder [] = (init_heap, Inr cssSelectorBuilder)
   \<and> stringify init_heap cssSelectorBuilder = Undefined"
  by (simp add: eval_defs)

text \<open>
  C1, amended. Started on a builder without state, a chain of one or more parts whose
  kinds are in non-decreasing order, with the element, the id and the pseudo-element at
  most once each, returns a builder, and that builder renders as the concatenation of the
  parts' fragments, nothing between them.
\<close>

theorem ordered_chain_renders:
  assumes "stateless h r" and "ps \<noteq> []" and "in_order ps"
  shows "\<exists>h' a. run_chain h r ps = (h', Inr a) \<and> stringify h' a = Str (concat (map fragment ps))"
  using run_chain_building [of h r ps] assms
  by (simp add: stateless_facts stringify_def)


theorem ordered_chain_renders_witness:
  "stateless init_heap cssSelectorBuilder
   \<and> in_order [(Element, ''div''), (Id, ''main''), (Class, ''container''), (Class, ''draggable'')]
   \<and> (\<exists>h' a. run_chain init_heap cssSelectorBuilder
                 [(Element, ''div''), (Id, ''main''), (Class, ''container''), (Class, ''draggable'')]
                 = (h', Inr a)
               \<and> stringify h' a = Str ''div#main.container.draggable'')"
proof -
  have st: "stateless init_heap cssSelectorBuilder"
    by (simp add: stateless_def eval_defs)
  have io: "in_order [(Element, ''div''), (Id, ''main''), (Class, ''container''),
                      (Class, ''draggable'')]"
    by (simp add: in_order_def)
  from ordered_chain_renders [OF st _ io] st io show ?thesis by simp
qed

section \<open>Repeated kinds\<close>

text \<open>
  C2, as stated, fails: on the builder \<^verbatim>\<open>id('main')\<close> returned, which holds an id and no
  kind of higher order, a second \<^verbatim>\<open>id('data')\<close> throws the "more then one time" error.
\<close>

theorem repeated_kind_counterexample:
  "used (fst (id_part init_heap cssSelectorBuilder ''main'')) 1 (flag_of Id)
   \<and> \<not> used (fst (id_part init_heap cssSelectorBuilder ''main'')) 1 (flag_of Class)
   \<and> \<not> used (fst (id_part init_heap cssSelectorBuilder ''main'')) 1 (flag_of Attribute)
   \<and> \<not> used (fst (id_part init_heap cssSelectorBuilder ''main'')) 1 (flag_of PseudoClass)
   \<and> \<not> used (fst (id_part init_heap cssSelectorBuilder ''main'')) 1 (flag_of PseudoElement)
   \<and> id_part (fst (id_part init_heap cssSelectorBuilder ''main'')) 1 ''data''
       = (fst (id_part init_heap cssSelectorBuilder ''main''), Inl MoreThanOnce)"
  by (simp add: eval_defs)

text \<open>
  C2, amended. On the builder a chain has returned, the class, the attribute and the
  pseudo-class may be applied again: where the kind is among the parts applied to the chain
  and none of them is of higher order, the call returns the same builder, which then
  renders as the fragments of the chain followed by the new fragment. The element, the id
  and the pseudo-element may not: where the kind is among the parts applied, the call
  throws and the store stays as it was.
\<close>

theorem repeated_kind_on_chain:
  assumes "stateless h r" and "run_chain h r ps = (h', Inr a)" and "k \<in> kinds ps"
  shows "if once_only k
         then fst (apply_part h' a (k, v)) = h'
              \<and> (snd (apply_part h' a (k, v)) = Inl MoreThanOnce
                   \<or> snd (apply_part h' a (k, v)) = Inl WrongOrder)
         else (\<forall>k' \<in> kinds ps. kind_order k' \<le> kind_order k) \<longrightarrow>
              (\<exists>h''. apply_part h' a (k, v) = (h'', Inr a)
                 \<and> stringify h'' a = Str (concat (map fragment ps) @ fragment (k, v)))"
proof (cases "once_only k")
  case True
  have "fst (apply_part h' a (k, v)) = h'
        \<and> (snd (apply_part h' a (k, v)) = Inl MoreThanOnce
             \<or> snd (apply_part h' a (k, v)) = Inl WrongOrder)"
  proof (cases "k = Element \<and> empty_start ps")
    case False
    with chain_flag [OF assms] have "used h' a (flag_of k)" by simp
    from own_flag_guard [OF True this, of v] show ?thesis by simp
  next
    case e: True
    with element_after_chain [OF assms(1,2), of v] assms(3) show ?thesis by simp
  qed
  with True show ?thesis by simp
next
  case False
  from assms(3) have ne: "ps \<noteq> []" by (auto simp: kinds_def)
  note cr = chain_record [OF assms(1) ne assms(2)]
  from False have nel: "k \<noteq> Element" by (cases k) simp_all
  have tr: "truthy (get_selector h' a)"
    using cr(1) fragments_not_empty [OF assms(3) nel] by simp
  have "\<exists>h''. apply_part h' a (k, v) = (h'', Inr a)
                 \<and> stringify h'' a = Str (concat (map fragment ps) @ fragment (k, v))"
    if top: "\<forall>k' \<in> kinds ps. kind_order k' \<le> kind_order k"
  proof -
    have ok: "\<forall>k'. used h' a (flag_of k') \<longrightarrow> may_follow k' k"
    proof (intro allI impI)
      fix k' assume "used h' a (flag_of k')"
      moreover have "set (tl ps) \<subseteq> set ps" by (cases ps) auto
      ultimately have "k' \<in> kinds ps" using cr(3) by (auto simp: kinds_def split: if_splits)
      with top have "kind_order k' \<le> kind_order k" by blast
      with False show "may_follow k' k"
        by (auto simp: may_follow_def le_less dest: kind_order_inj)
    qed
    from cr(2) have "truthy (get_selector h' a) \<longrightarrow> get_prop usedSelectors h' a \<noteq> None"
      by simp
    from part_step [OF this ok, of v] tr cr(1) show ?thesis
      by (auto simp: stringify_def)
  qed
  with False show ?thesis by simp
qed


theorem repeated_kind_on_chain_witness:
  "stateless init_heap cssSelectorBuilder
   \<and> run_chain init_heap cssSelectorBuilder [(Class, ''container'')]
       = (fst (run_chain init_heap cssSelectorBuilder [(Class, ''container'')]), Inr 1)
   \<and> Class \<in> kinds [(Class, ''container'')] \<and> \<not> once_only Class
   \<and> (\<exists>h''. apply_part (fst (run_chain init_heap cssSelectorBuilder [(Class, ''container'')])) 1
                (Class, ''draggable'') = (h'', Inr 1)
              \<and> stringify h'' 1 = Str ''.container.draggable'')
   \<and> run_chain init_heap cssSelectorBuilder [(Id, ''main'')]
       = (fst (run_chain init_heap cssSelectorBuilder [(Id, ''main'')]), Inr 1)
   \<and> Id \<in> kinds [(Id, ''main'')] \<and> once_only Id
   \<and> fst (apply_part (fst (run_chain init_heap cssSelectorBuilder [(Id, ''main'')])) 1
            (Id, ''data''))
       = fst (run_chain init_heap cssSelectorBuilder [(Id, ''main'')])"
proof -
  have st: "stateless init_heap cssSelectorBuilder"
    by (simp add: stateless_def eval_defs)
  have c: "run_chain init_heap cssSelectorBuilder [(Class, ''container'')]
       = (fst (run_chain init_heap cssSelectorBuilder [(Class, ''container'')]), Inr 1)"
    by (simp add: eval_defs)
  have i: "run_chain init_heap cssSelectorBuilder [(Id, ''main'')]
       = (fst (run_chain init_heap cssSelectorBuilder [(Id, ''main'')]), Inr 1)"
    by (simp add: eval_defs)
  have kc: "Class \<in> kinds [(Class, ''container'')]" and ki: "Id \<in> kinds [(Id, ''main'')]"
    by (simp_all add: kinds_def)
  have top: "\<forall>k' \<in> kinds [(Class, ''container'')]. kind_order k' \<le> kind_order Class"
    by (simp add: kinds_def)
  from repeated_kind_on_chain [OF st c kc, of "''draggable''"]
    repeated_kind_on_chain [OF st i ki, of "''data''"] st c i kc ki top
  show ?thesis by simp
qed

section \<open>Composites\<close>


section \<open>The empty element\<close>

text \<open>
  C10, as stated, fails for one kind of next part: after \<^verbatim>\<open>element('')\<close> a second
  \<^verbatim>\<open>element\<close> allocates nothing and returns nothing; it throws the "more then one time"
  error, since the first call has set the flag.
\<close>

theorem after_empty_element_counterexample:
  "snd (element init_heap cssSelectorBuilder []) = Inr 1
   \<and> apply_part (fst (element init_heap cssSelectorBuilder [])) 1 (Element, ''div'')
       = (fst (element init_heap cssSelectorBuilder []), Inl MoreThanOnce)"
  by (simp add: eval_defs)

text \<open>
  C10, amended. When the first part of a chain is \<^verbatim>\<open>element('')\<close>, the builder \<open>x\<close> it
  returns has the empty text, which is falsy. A next part of any kind but the element then
  takes the branch that creates an object: it returns a new object \<open>y\<close> whose prototype is
  \<open>x\<close>, whose text is the fragment alone and whose used kinds are a new record holding the
  incoming kind only. The object \<open>x\<close> is not written to, and still renders as the empty
  string.
\<close>

theorem after_empty_element:
  assumes "stateless h r" and "k \<noteq> Element"
  shows "let x = length (objs h); h1 = fst (element h r []);
             y = length (objs h1); h2 = fst (apply_part h1 x (k, v))
         in snd (element h r []) = Inr x \<and> stringify h1 x = Str []
            \<and> snd (apply_part h1 x (k, v)) = Inr y \<and> y \<noteq> x
            \<and> objs h2 ! y = \<lparr>proto = Some x, selector = Some (fragment (k, v)),
                              usedSelectors = Some (length (flagobjs h1))\<rparr>
            \<and> (\<forall>k'. flag_of k' (flagobjs h2 ! length (flagobjs h1)) = (k' = k))
            \<and> objs h2 ! x = objs h1 ! x
            \<and> stringify h2 x = Str []"
proof -
  define fl where "fl = \<lparr>u_element = True, u_id = False, u_className = False,
    u_attribute = False, u_pseudoClass = False, u_pseudoElement = False\<rparr>"
  define h1 where "h1 = fst (new_instance h r [] fl)"
  let ?x = "length (objs h)"
  have e: "element h r [] = new_instance h r [] fl"
    unfolding fl_def by (rule element_stateless [OF assms(1)])
  have sel: "get_selector h1 ?x = Str []" and us: "\<And>f. used h1 ?x f = f fl"
    unfolding h1_def by (rule created)+
  have len: "length (objs h1) = Suc ?x" and own: "selector (objs h1 ! ?x) = Some []"
    by (simp_all add: h1_def new_instance_def)
  have allk: "\<And>P. (\<forall>k'. P k') = (P Element \<and> P Id \<and> P Class \<and> P Attribute \<and> P PseudoClass \<and> P PseudoElement)"
    by (metis kind.exhaust)
  have "snd (apply_part h1 ?x (k, v)) = Inr (Suc ?x)
        \<and> objs (fst (apply_part h1 ?x (k, v))) ! Suc ?x
            = \<lparr>proto = Some ?x, selector = Some (fragment (k, v)),
                usedSelectors = Some (length (flagobjs h1))\<rparr>
        \<and> (\<forall>k'. flag_of k' (flagobjs (fst (apply_part h1 ?x (k, v))) ! length (flagobjs h1)) = (k' = k))
        \<and> objs (fst (apply_part h1 ?x (k, v))) ! ?x = objs h1 ! ?x
        \<and> length (objs (fst (apply_part h1 ?x (k, v)))) = Suc (Suc ?x)"
    using assms(2)
    by (cases k) (simp_all add: part_defs sel us fl_def new_instance_def len nth_append allk)
  moreover from this own
  have "stringify (fst (apply_part h1 ?x (k, v))) ?x = Str []"
    by (intro stringify_own) simp_all
  moreover have "snd (new_instance h r [] fl) = Inr ?x" by (rule created)
  ultimately show ?thesis
    using sel by (simp add: Let_def e h1_def [symmetric] len stringify_def)
qed

theorem after_empty_element_witness:
  "stateless init_heap cssSelectorBuilder \<and> Id \<noteq> Element
   \<and> snd (element init_heap cssSelectorBuilder []) = Inr 1
   \<and> snd (apply_part (fst (element init_heap cssSelectorBuilder [])) 1 (Id, ''main'')) = Inr 2
   \<and> stringify (fst (apply_part (fst (element init_heap cssSelectorBuilder [])) 1 (Id, ''main''))) 1
       = Str []"
proof -
  have st: "stateless init_heap cssSelectorBuilder"
    by (simp add: stateless_def eval_defs)
  have l: "length (objs init_heap) = 1" "length (objs (fst (element init_heap cssSelectorBuilder []))) = 2"
    by (simp_all add: eval_defs)
  from after_empty_element [OF st, of Id "''main''"] st l show ?thesis
    by (simp add: Let_def)
qed

section \<open>Chains started on the same builder\<close>

text \<open>
  C9. A part call on a builder without state, such as \<^verbatim>\<open>cssSelectorBuilder\<close>, creates
  an object and a record of used kinds and writes to nothing that exists. So for two
  chains started one after the other on the same such builder \<open>r\<close>: both return builders,
  \<open>x\<close> and \<open>y\<close>, which are new and distinct objects with distinct records of used kinds;
  no object and no record that existed before is changed, and \<open>r\<close> is still without state;
  the second chain leaves the used kinds of \<open>x\<close> as they were; and each builder renders as
  the fragments of its own chain.
\<close>

theorem separate_chains:
  assumes "stateless h r" and "r < length (objs h)"
    and "ps1 \<noteq> []" and "in_order ps1" and "ps2 \<noteq> []" and "in_order ps2"
  shows "\<exists>h1 x h2 y. run_chain h r ps1 = (h1, Inr x) \<and> run_chain h1 r ps2 = (h2, Inr y)
           \<and> length (objs h) \<le> x \<and> x < y
           \<and> take (length (objs h)) (objs h2) = objs h
           \<and> take (length (flagobjs h)) (flagobjs h2) = flagobjs h
           \<and> stateless h2 r
           \<and> get_prop usedSelectors h2 x \<noteq> get_prop usedSelectors h2 y
           \<and> (\<forall>f. used h2 x f = used h1 x f)
           \<and> stringify h2 x = Str (concat (map fragment ps1))
           \<and> stringify h2 y = Str (concat (map fragment ps2))"
proof -
  let ?n = "length (objs h)" and ?m = "length (flagobjs h)"
  from chain_from_stateless [OF assms(1,3,4)]
  obtain h1 x ux where c1: "run_chain h r ps1 = (h1, Inr x)"
    and s1: "stringify h1 x = Str (concat (map fragment ps1))"
    and x: "?n \<le> x" and p1: "take ?n (objs h1) = objs h"
    and f1: "take ?m (flagobjs h1) = flagobjs h"
    and ux: "get_prop usedSelectors h1 x = Some ux" "ux < length (flagobjs h1)"
    by blast
  have p1': "take ?n (objs h1) = take ?n (objs h)" using p1 by simp
  have st1: "stateless h1 r"
    using assms(1) get_prop_prefix [OF assms(2) p1', of selector]
      get_prop_prefix [OF assms(2) p1', of usedSelectors]
    by (simp add: stateless_def)
  from chain_from_stateless [OF st1 assms(5,6)]
  obtain h2 y uy where c2: "run_chain h1 r ps2 = (h2, Inr y)"
    and s2: "stringify h2 y = Str (concat (map fragment ps2))"
    and y: "length (objs h1) \<le> y" and p2: "take (length (objs h1)) (objs h2) = objs h1"
    and f2: "take (length (flagobjs h1)) (flagobjs h2) = flagobjs h1"
    and uy: "get_prop usedSelectors h2 y = Some uy" "length (flagobjs h1) \<le> uy"
    by blast
  have p2': "take (length (objs h1)) (objs h2) = take (length (objs h1)) (objs h1)"
    using p2 by simp
  have xv: "x < length (objs h1)" using s1 by (rule stringify_valid)
  have sx: "stringify h2 x = stringify h1 x"
    using get_prop_prefix [OF xv p2', of selector] by (simp add: stringify_def get_selector_def)
  have ux2: "get_prop usedSelectors h2 x = Some ux"
    using get_prop_prefix [OF xv p2', of usedSelectors] ux by simp
  have "take (length (flagobjs h1)) (flagobjs h2) ! ux = flagobjs h2 ! ux"
    using ux(2) by simp
  with f2 have "flagobjs h2 ! ux = flagobjs h1 ! ux" by simp
  with ux ux2 have same: "\<forall>f. used h2 x f = used h1 x f" by (simp add: used_def)
  have le: "?n \<le> length (objs h1)" using x xv by simp
  have "take ?n (objs h2) = take ?n (take (length (objs h1)) (objs h2))"
    using le by (simp add: min_def)
  with p2 p1 have p: "take ?n (objs h2) = objs h" by simp
  have "length (take ?m (flagobjs h1)) = ?m" using f1 by simp
  then have "?m \<le> length (flagobjs h1)" by simp
  then have "take ?m (flagobjs h2) = take ?m (take (length (flagobjs h1)) (flagobjs h2))"
    by (simp add: min_def)
  with f2 f1 have f: "take ?m (flagobjs h2) = flagobjs h" by simp
  from p have "take ?n (objs h2) = take ?n (objs h)" by simp
  from get_prop_prefix [OF assms(2) this, of selector]
    get_prop_prefix [OF assms(2) this, of usedSelectors] assms(1)
  have st2: "stateless h2 r"
    by (simp add: stateless_def)
  from ux uy ux2 have "get_prop usedSelectors h2 x \<noteq> get_prop usedSelectors h2 y" by simp
  with c1 c2 x xv y p f st2 sx s1 s2 same show ?thesis by simp
qed

theorem separate_chains_witness:
  "stateless init_heap cssSelectorBuilder \<and> cssSelectorBuilder < length (objs init_heap)
   \<and> in_order [(Element, ''a'')] \<and> in_order [(Element, ''div'')]
   \<and> (\<exists>h1 x h2 y. run_chain init_heap cssSelectorBuilder [(Element, ''a'')] = (h1, Inr x)
         \<and> run_chain h1 cssSelectorBuilder [(Element, ''div'')] = (h2, Inr y)
         \<and> x < y \<and> stringify h2 x = Str ''a'' \<and> stringify h2 y = Str ''div'')"
proof -
  have st: "stateless init_heap cssSelectorBuilder"
    by (simp add: stateless_def eval_defs)
  have v: "cssSelectorBuilder < length (objs init_heap)"
    by (simp add: eval_defs)
  have i1: "in_order [(Element, ''a'')]" and i2: "in_order [(Element, ''div'')]"
    by (simp_all add: in_order_def)
  from separate_chains [OF st v _ i1 _ i2] st v i1 i2 show ?thesis by simp blast
qed

end
